theory Spec2Isabelle
  imports Complex_Main "HOL-Library.Signed_Division" "HOL-Library.Char_ord" "HOL-Library.List_Lexorder"
begin

section \<open>prusaLinkClient: job status and its cache\<close>

text \<open>
  Go's \<^verbatim>\<open>time.Time\<close> is modelled as nanoseconds relative to the Unix epoch; the
  zero value of \<^verbatim>\<open>time.Time\<close> (January 1, year 1, UTC) lies 62135596800 seconds
  before it. Go's \<^verbatim>\<open>int\<close> is modelled as \<open>int\<close>; the one operation that can leave
  the 64-bit range, the division of \<^verbatim>\<open>buildVideo\<close>, has its wrap-around written out
  (indices, counts and sequence numbers are bounded by the length of a directory
  listing and by six digits). \<^verbatim>\<open>float64\<close> progress values are only ever compared
  with zero; they are reals here.
\<close>

type_synonym time = int

definition second :: int where
  "second = 1000000000"

definition zeroTime :: time where
  "zeroTime = - 62135596800 * second"

definition StatusIdle :: string where "StatusIdle = ''IDLE''"
definition StatusBusy :: string where "StatusBusy = ''BUSY''"
definition StatusPrinting :: string where "StatusPrinting = ''PRINTING''"
definition StatusPaused :: string where "StatusPaused = ''PAUSED''"
definition StatusFinished :: string where "StatusFinished = ''FINISHED''"
definition StatusStopped :: string where "StatusStopped = ''STOPPED''"
definition StatusError :: string where "StatusError = ''ERROR''"
definition StatusAttention :: string where "StatusAttention = ''ATTENTION''"
definition StatusReady :: string where "StatusReady = ''READY''"

record Status =
  Online :: bool
  JobID :: int
  FileName :: string
  State :: string
  Progress :: real

text \<open>The Go composite literal \<^verbatim>\<open>Status{}\<close>: every field at its zero value.\<close>

definition Status0 :: Status where
  "Status0 = \<lparr>Online = False, JobID = 0, FileName = [], State = [], Progress = 0\<rparr>"

text \<open>
  \<^verbatim>\<open>jobResponse\<close>, the decoded JSON body. Only the fields that \<^verbatim>\<open>parseJobResponse\<close>
  reads are kept (\<^verbatim>\<open>File.Name\<close> and \<^verbatim>\<open>File.Path\<close> are never read).
\<close>

record jobResponse =
  resp_ID :: int
  resp_State :: string
  resp_Progress :: real
  resp_DisplayName :: string

datatype error =
    ErrCreateRequest
  | ErrMakeRequest
  | ErrReadBody
  | ErrUnmarshal
  | ErrStatusCode int
  | ErrMutexLocked
  | ErrRunStill
  | ErrCp
  | ErrNoTimelapse
  | ErrReadDir
  | ErrNoShots
  | ErrSscanf
  | ErrTakeShot error
  | ErrLastTLShot error
  | ErrReadShot

text \<open>
  What one request to the printer does, as far as \<^verbatim>\<open>jobStatus\<close> can tell:
  \<^item> \<open>NewRequestFailed\<close>: \<^verbatim>\<open>http.NewRequestWithContext\<close> returned an error;
  \<^item> \<open>DoFailed d\<close>: \<^verbatim>\<open>httpClient.Do\<close> returned an error \<open>err\<close>, and \<open>d\<close> is
    \<^verbatim>\<open>errors.Is(err, context.DeadlineExceeded)\<close> (the request timed out);
  \<^item> \<open>ReadAllFailed d\<close>: \<^verbatim>\<open>io.ReadAll(resp.Body)\<close> returned an error \<open>err\<close>, and \<open>d\<close>
    is \<^verbatim>\<open>errors.Is(err, context.DeadlineExceeded)\<close> (the deadline of the request or the
    time-out of the client passed while the body was read);
  \<^item> \<open>Response code body\<close>: a response with this status code whose body
    \<^verbatim>\<open>json.Unmarshal\<close> decodes to \<open>body\<close> (\<open>None\<close>: it does not decode).
\<close>

datatype http =
    NewRequestFailed
  | DoFailed bool
  | ReadAllFailed bool
  | Response int "jobResponse option"

definition parseJobResponse :: "jobResponse option \<Rightarrow> error + Status" where
  "parseJobResponse body =
     (case body of
        None \<Rightarrow> Inl ErrUnmarshal
      | Some resp \<Rightarrow>
          Inr \<lparr>Online = True, JobID = resp_ID resp, FileName = resp_DisplayName resp,
               State = resp_State resp, Progress = resp_Progress resp\<rparr>)"

fun jobStatus :: "http \<Rightarrow> error + Status" where
  "jobStatus NewRequestFailed = Inl ErrCreateRequest"
| "jobStatus (DoFailed deadlineExceeded) =
     (if deadlineExceeded then Inr (Status0\<lparr>Online := False\<rparr>) else Inl ErrMakeRequest)"
| "jobStatus (ReadAllFailed deadlineExceeded) = Inl ErrReadBody"
| "jobStatus (Response code body) =
     (if code = 200 then parseJobResponse body
      else if code = 204 then Inr (Status0\<lparr>Online := True, State := StatusFinished\<rparr>)
      else Inl (ErrStatusCode code))"

text \<open>How many times \<^verbatim>\<open>httpClient.Do\<close> is called by one \<^verbatim>\<open>jobStatus\<close>.\<close>

fun requests :: "http \<Rightarrow> nat" where
  "requests NewRequestFailed = 0"
| "requests _ = 1"

record client =
  cachedStatus :: "Status option"
  cachedTime :: time

definition NewClient :: client where
  "NewClient = \<lparr>cachedStatus = None, cachedTime = zeroTime\<rparr>"

definition jobStatusToCache :: "client \<Rightarrow> Status \<Rightarrow> time \<Rightarrow> client" where
  "jobStatusToCache c status now = c\<lparr>cachedStatus := Some status, cachedTime := now\<rparr>"

text \<open>
  \<^verbatim>\<open>c.cachedTime.Before(time.Now().Add(10 * time.Second))\<close> is
  \<open>cachedTime c < now + 10 * second\<close>.
\<close>

definition jobStatusFromCache :: "client \<Rightarrow> time \<Rightarrow> Status option \<times> client" where
  "jobStatusFromCache c now =
     (let c' = (if cachedTime c < now + 10 * second then c\<lparr>cachedStatus := None\<rparr> else c)
      in (cachedStatus c', c'))"

text \<open>
  \<^verbatim>\<open>JobStatus\<close>: \<open>now\<close> is the clock read by \<^verbatim>\<open>jobStatusFromCache\<close>, \<open>now'\<close> the one
  read by \<^verbatim>\<open>jobStatusToCache\<close>, \<open>h\<close> what the request does if one is made. The result
  is the returned pair, the client afterwards and the number of requests sent.
\<close>

definition JobStatus :: "client \<Rightarrow> time \<Rightarrow> http \<Rightarrow> time \<Rightarrow> (error + Status) \<times> client \<times> nat" where
  "JobStatus c now h now' =
     (case jobStatusFromCache c now of
        (Some st, c1) \<Rightarrow> (Inr st, c1, 0)
      | (None, c1) \<Rightarrow>
          (case jobStatus h of
             Inl err \<Rightarrow> (Inl err, c1, requests h)
           | Inr st \<Rightarrow> (Inr st, jobStatusToCache c1 st now', requests h)))"

section \<open>camera: formatting helpers\<close>

text \<open>
  \<^verbatim>\<open>strconv.Itoa\<close> and the \<^verbatim>\<open>%d\<close> verbs of \<^verbatim>\<open>fmt.Sprintf\<close>: the decimal digits of
  a number, most significant first, with a minus sign for a negative one
  (\<open>digits\<close> is applied to numbers from 0 on).
\<close>

function digits :: "int \<Rightarrow> string" where
  "digits n =
     (if n < 10 then [''0123456789'' ! nat n]
      else digits (n div 10) @ [''0123456789'' ! nat (n mod 10)])"
  by pat_completeness auto
termination
  by (relation "measure nat") auto

declare digits.simps [simp del]

definition Itoa :: "int \<Rightarrow> string" where
  "Itoa i = (if i < 0 then CHR ''-'' # digits (- i) else digits i)"

definition pad_left :: "char \<Rightarrow> nat \<Rightarrow> string \<Rightarrow> string" where
  "pad_left c w s = replicate (w - length s) c @ s"

text \<open>The verb \<^verbatim>\<open>%6d\<close> of Go's \<^verbatim>\<open>fmt\<close>: width 6, padded on the left with spaces.\<close>

definition fmt_6d :: "int \<Rightarrow> string" where
  "fmt_6d i = pad_left CHR '' '' 6 (Itoa i)"

text \<open>
  The verb \<^verbatim>\<open>%06d\<close>, which the continuous capture is started with
  (\<^verbatim>\<open>-o <dir>/image%06d.jpg\<close>): width 6, padded with zeros after the sign.
\<close>

definition fmt_06d :: "int \<Rightarrow> string" where
  "fmt_06d i =
     (if i < 0 then CHR ''-'' # pad_left CHR ''0'' 5 (digits (- i))
      else pad_left CHR ''0'' 6 (digits i))"

text \<open>
  The name of frame \<open>i\<close> in the naming scheme of the specification,
  \<^verbatim>\<open>image%06d.jpg\<close> inside the directory of the session.
\<close>

definition frame_name_spec :: "string \<Rightarrow> int \<Rightarrow> string" where
  "frame_name_spec dir i = dir @ ''/image'' @ fmt_06d i @ ''.jpg''"

text \<open>The same name without the directory, as a directory listing shows it.\<close>

definition frame_file :: "int \<Rightarrow> string" where
  "frame_file i = ''image'' @ fmt_06d i @ ''.jpg''"

text \<open>The \<open>k\<close> low decimal digits of a number, most significant first.\<close>

fun dec :: "nat \<Rightarrow> int \<Rightarrow> string" where
  "dec 0 n = []"
| "dec (Suc k) n = dec k (n div 10) @ [''0123456789'' ! nat (n mod 10)]"

text \<open>\<^verbatim>\<open>strings.HasSuffix\<close>.\<close>

definition HasSuffix :: "string \<Rightarrow> string \<Rightarrow> bool" where
  "HasSuffix s suffix = (length suffix \<le> length s \<and> drop (length s - length suffix) s = suffix)"

text \<open>
  \<^verbatim>\<open>filepath.Join\<close> of a directory and one more element, for the paths the camera
  builds: a clean directory path and an element without separators, where \<^verbatim>\<open>Join\<close>
  is concatenation with one separator.
\<close>

definition Join :: "string \<Rightarrow> string \<Rightarrow> string" where
  "Join dir elem = dir @ ''/'' @ elem"

text \<open>\<^verbatim>\<open>filepath.Base\<close> of such a path: what follows the last separator.\<close>

definition Base :: "string \<Rightarrow> string" where
  "Base path = rev (takeWhile (\<lambda>c. c \<noteq> CHR ''/'') (rev path))"

definition shotFilename :: "string \<Rightarrow> int \<Rightarrow> string" where
  "shotFilename dir i = dir @ ''/image'' @ fmt_6d i @ ''.jpg''"

section \<open>camera: the time-lapse service and the camera\<close>

record TimelapseConfig =
  Enabled :: bool
  Interval :: int
  Loglevel :: string
  VideoLenght :: int
  OutputDir :: string
  MinFPS :: int

text \<open>
  The state of the \<^verbatim>\<open>exec.Cmd\<close> behind \<^verbatim>\<open>timelapseCommand\<close>: started and not yet
  exited, or exited (after \<^verbatim>\<open>timelapseStop()\<close> and \<^verbatim>\<open>Wait()\<close>). The field
  \<^verbatim>\<open>timelapseStop\<close> cancels the context of that same command and has no state of its
  own.
\<close>

datatype cmd = Running | Exited

record timelapse =
  currentDir :: string
  startTime :: time
  jobID :: int
  jobName :: string
  timelapseCommand :: cmd

record dirEntry =
  entryName :: string
  entryIsDir :: bool

text \<open>
  What the camera code does to the world outside, in the order it does it:
  \<^item> \<open>MutexLock\<close>: \<^verbatim>\<open>rpicamMutex.Lock()\<close> returned;
  \<^item> \<open>MutexTryLock ok\<close>: \<^verbatim>\<open>rpicamMutex.TryLock()\<close> returned \<open>ok\<close>;
  \<^item> \<open>MutexUnlock\<close>: \<^verbatim>\<open>rpicamMutex.Unlock()\<close>;
  \<^item> \<open>CmdStart pattern\<close>: \<^verbatim>\<open>cmd.Start()\<close> succeeded for the continuous capture writing to \<open>pattern\<close>;
  \<^item> \<open>CmdStop\<close>: \<^verbatim>\<open>timelapseStop()\<close> and \<^verbatim>\<open>Wait()\<close> on a running continuous capture;
  \<^item> \<open>StillRun name ok\<close>: one \<^verbatim>\<open>rpicam-still --immediate -o name\<close> was run to its end;
  \<^item> \<open>Cp src dst ok\<close>: one \<^verbatim>\<open>cp src dst\<close> was run to its end;
  \<^item> \<open>GoBuildVideo ses count\<close>: \<^verbatim>\<open>go c.buildVideo(c.timelapse, count)\<close>.
\<close>

datatype event =
    MutexLock
  | MutexTryLock bool
  | MutexUnlock
  | CmdStart string
  | CmdStop
  | StillRun string bool
  | Cp string string bool
  | GoBuildVideo timelapse int

text \<open>
  The fields of \<^verbatim>\<open>timelapseSvc\<close> and \<^verbatim>\<open>rpiCamera\<close> that change or are read, the
  package-level \<^verbatim>\<open>rpicamMutex\<close> (\<open>True\<close>: locked), and the events so far.
\<close>

record world =
  tlRunning :: bool
  timelapse :: "timelapse option"
  tmpDir :: string
  rpicamMutex :: bool
  trace :: "event list"

text \<open>
  What the surroundings answer during one call:
  \<^item> \<open>poll\<close>: the result of \<^verbatim>\<open>c.prusalink.JobStatus\<close> in \<^verbatim>\<open>handleTimelapse\<close>;
  \<^item> \<open>mkdirTemp\<close>: the result of \<^verbatim>\<open>os.MkdirTemp\<close>;
  \<^item> \<open>waitPolls\<close>: the results of the successive \<^verbatim>\<open>JobStatus\<close> calls of the loop that
    waits for progress (when they run out, the loop is still waiting);
  \<^item> \<open>startOK\<close>: whether \<^verbatim>\<open>cmd.Start()\<close> succeeds;
  \<^item> \<open>timeNow\<close>: \<^verbatim>\<open>time.Now()\<close>;
  \<^item> \<open>readDir\<close>: \<^verbatim>\<open>os.ReadDir\<close> (\<open>None\<close>: an error), entries sorted by name;
  \<^item> \<open>sscanf\<close>: \<^verbatim>\<open>fmt.Sscanf(filename, "image%6d.jpg", &id)\<close> (\<open>None\<close>: an error);
  \<^item> \<open>stillOK\<close>: whether \<^verbatim>\<open>rpicam-still\<close> writing to this path succeeds;
  \<^item> \<open>cpOK\<close>: whether \<^verbatim>\<open>cp src dst\<close> succeeds;
  \<^item> \<open>readFile\<close>: \<^verbatim>\<open>os.ReadFile\<close> (\<open>None\<close>: an error).
\<close>

record env =
  poll :: "error + Status"
  mkdirTemp :: "string option"
  waitPolls :: "(error + Status) list"
  startOK :: bool
  timeNow :: time
  readDir :: "string \<Rightarrow> dirEntry list option"
  sscanf :: "string \<Rightarrow> int option"
  stillOK :: "string \<Rightarrow> bool"
  cpOK :: "string \<Rightarrow> string \<Rightarrow> bool"
  readFile :: "string \<Rightarrow> string option"

text \<open>A value, or a run-time panic (index out of range, nil dereference, division by zero).\<close>

datatype 'a res = Ret 'a | Panic

text \<open>How a call without a result ends: it returns, it panics, or it never returns.\<close>

datatype exit = Returned | Panicked | Hung

text \<open>
  The camera as \<^verbatim>\<open>NewRPICamera\<close> and \<^verbatim>\<open>newTimelapse\<close> build it (\<open>tmp\<close> is the
  directory \<^verbatim>\<open>os.MkdirTemp\<close> made for still shots), with the mutex unlocked.
\<close>

definition newTimelapse :: "string \<Rightarrow> world" where
  "newTimelapse tmp =
     \<lparr>tlRunning = False, timelapse = None, tmpDir = tmp, rpicamMutex = False, trace = []\<rparr>"

definition timelapseShouldStart :: "string \<Rightarrow> bool" where
  "timelapseShouldStart state = (state = StatusPrinting \<or> state = StatusAttention)"

definition timelapseShouldBeRunning :: "string \<Rightarrow> bool" where
  "timelapseShouldBeRunning state =
     (timelapseShouldStart state \<or> state = StatusPaused \<or> state = StatusBusy)"

definition timelapseShouldStop :: "string \<Rightarrow> bool" where
  "timelapseShouldStop state =
     (state = StatusIdle \<or> state = StatusError \<or> state = StatusFinished \<or>
      state = StatusStopped \<or> state = StatusReady)"

text \<open>The function \<^verbatim>\<open>jobName\<close> (the record field of the session has that name).\<close>

definition jobName_of :: "Status \<Rightarrow> string" where
  "jobName_of f = (if FileName f \<noteq> [] then FileName f else Itoa (JobID f))"

text \<open>
  The loop of \<^verbatim>\<open>startTimelapse\<close> that waits for progress. The context is
  \<^verbatim>\<open>context.Background()\<close>, which is never done, so the loop ends only on progress;
  \<open>None\<close> is the loop still waiting after the answers given.
\<close>

fun waitProgress :: "Status \<Rightarrow> (error + Status) list \<Rightarrow> Status option" where
  "waitProgress status polls =
     (if Progress status > 0 then Some status
      else (case polls of
              [] \<Rightarrow> None
            | Inl err # rest \<Rightarrow> waitProgress Status0 rest
            | Inr status' # rest \<Rightarrow> waitProgress status' rest))"

declare waitProgress.simps [simp del]

definition startTimelapse :: "env \<Rightarrow> Status \<Rightarrow> world \<Rightarrow> exit \<times> world" where
  "startTimelapse e status0 w =
     (case mkdirTemp e of
        None \<Rightarrow> (Returned, w)
      | Some dir \<Rightarrow>
          (case waitProgress status0 (waitPolls e) of
             None \<Rightarrow> (Hung, w)
           | Some status \<Rightarrow>
               if rpicamMutex w then (Hung, w)
               else
                 let w1 = w\<lparr>rpicamMutex := True, trace := trace w @ [MutexLock]\<rparr>;
                     w2 = (if startOK e
                           then w1\<lparr>tlRunning := True,
                                   timelapse := Some \<lparr>currentDir = dir, startTime = timeNow e,
                                     jobID = JobID status, jobName = jobName_of status,
                                     timelapseCommand = Running\<rparr>,
                                   trace := trace w1 @ [CmdStart (dir @ ''/image%06d.jpg'')]\<rparr>
                           else w1)
                 in (Returned, w2\<lparr>rpicamMutex := False, trace := trace w2 @ [MutexUnlock]\<rparr>)))"

text \<open>
  The loop of \<^verbatim>\<open>lastTLShotInternal\<close>,
  \<^verbatim>\<open>for i := len(files) - 1; i >= 0; i++\<close>, with the bounds check of \<^verbatim>\<open>files[i]\<close>.
\<close>

function lastTLShotLoop :: "string \<Rightarrow> dirEntry list \<Rightarrow> int \<Rightarrow> (error + string \<times> int) res" where
  "lastTLShotLoop dir files i =
     (if i \<ge> 0 then
        (if i < int (length files) then
           (if \<not> entryIsDir (files ! nat i) \<and> HasSuffix (entryName (files ! nat i)) ''.jpg''
            then Ret (Inr (Join dir (entryName (files ! nat i)), int (length files)))
            else lastTLShotLoop dir files (i + 1))
         else Panic)
      else Ret (Inl ErrNoShots))"
  by pat_completeness auto
termination
  by (relation "measure (\<lambda>(dir, files, i). nat (int (length files) - i))") auto

declare lastTLShotLoop.simps [simp del]

definition lastTLShotInternal :: "env \<Rightarrow> string \<Rightarrow> (error + string \<times> int) res" where
  "lastTLShotInternal e dir =
     (case readDir e dir of
        None \<Rightarrow> Ret (Inl ErrReadDir)
      | Some files \<Rightarrow> lastTLShotLoop dir files (int (length files) - 1))"

definition getShotID :: "env \<Rightarrow> string \<Rightarrow> error + int" where
  "getShotID e name = (case sscanf e (Base name) of None \<Rightarrow> Inl ErrSscanf | Some i \<Rightarrow> Inr i)"

text \<open>
  The copying loop of \<^verbatim>\<open>takeLastShot\<close>, \<^verbatim>\<open>for i := lastID; i < lastID+count+1; i++\<close>
  (here \<open>hi\<close> is \<open>lastID + count + 1\<close>): the error it returns, if any, and the copies run.
\<close>

function cpLoop :: "env \<Rightarrow> string \<Rightarrow> string \<Rightarrow> int \<Rightarrow> int \<Rightarrow> error option \<times> event list" where
  "cpLoop e name dir i hi =
     (if i < hi then
        (if cpOK e name (shotFilename dir i)
         then (case cpLoop e name dir (i + 1) hi of
                 (r, evs) \<Rightarrow> (r, Cp name (shotFilename dir i) True # evs))
         else (Some ErrCp, [Cp name (shotFilename dir i) False]))
      else (None, []))"
  by pat_completeness auto
termination
  by (relation "measure (\<lambda>(e, name, dir, i, hi). nat (hi - i))") auto

declare cpLoop.simps [simp del]

text \<open>
  \<^verbatim>\<open>takeLastShot\<close>: \<open>None\<close> when \<^verbatim>\<open>rpicamMutex.Lock()\<close> never returns, otherwise the
  returned error (\<open>None\<close>: nil).
\<close>

definition takeLastShot :: "env \<Rightarrow> string \<Rightarrow> int \<Rightarrow> int \<Rightarrow> world \<Rightarrow> error option option \<times> world" where
  "takeLastShot e dir lastID count w =
     (let name = shotFilename dir lastID in
      if rpicamMutex w then (None, w)
      else
        let w1 = w\<lparr>rpicamMutex := True,
                   trace := trace w @ [MutexLock, StillRun name (stillOK e name)]\<rparr>;
            (r, evs) = (if stillOK e name then cpLoop e name dir lastID (lastID + count + 1)
                        else (Some ErrRunStill, []))
        in (Some r, w1\<lparr>rpicamMutex := False, trace := trace w1 @ evs @ [MutexUnlock]\<rparr>))"

definition finishTimelapse :: "env \<Rightarrow> world \<Rightarrow> exit \<times> world" where
  "finishTimelapse e w =
     (case timelapse w of
        None \<Rightarrow> (Panicked, w)
      | Some ses \<Rightarrow>
          let stopped = ses\<lparr>timelapseCommand := Exited\<rparr>;
              w1 = w\<lparr>timelapse := Some stopped,
                     trace := trace w @ (if timelapseCommand ses = Running then [CmdStop] else [])\<rparr>
          in (case lastTLShotInternal e (currentDir ses) of
                Panic \<Rightarrow> (Panicked, w1)
              | Ret (Inl err) \<Rightarrow> (Returned, w1)
              | Ret (Inr (name, count)) \<Rightarrow>
                  (case getShotID e name of
                     Inl err \<Rightarrow> (Returned, w1)
                   | Inr i \<Rightarrow>
                       (case takeLastShot e (currentDir ses) i (count sdiv 10) w1 of
                          (None, w2) \<Rightarrow> (Hung, w2)
                        | (Some r, w2) \<Rightarrow>
                            (Returned,
                             w2\<lparr>tlRunning := False, timelapse := None,
                                trace := trace w2 @ [GoBuildVideo stopped count]\<rparr>)))))"

definition handleTimelapse :: "env \<Rightarrow> world \<Rightarrow> exit \<times> world" where
  "handleTimelapse e w =
     (case poll e of
        Inl err \<Rightarrow> (Returned, w)
      | Inr status \<Rightarrow>
          if \<not> tlRunning w then
            (if \<not> Online status then (Returned, w)
             else if timelapseShouldStart (State status) then startTimelapse e status w
             else (Returned, w))
          else if timelapseShouldStop (State status) then finishTimelapse e w
          else (Returned, w))"

text \<open>
  The frame rate \<^verbatim>\<open>buildVideo\<close> passes to the encoder. Go's integer division truncates,
  panics on a zero divisor, and wraps at 64 bits.
\<close>

definition wrap64 :: "int \<Rightarrow> int" where
  "wrap64 x = (x + 2 ^ 63) mod 2 ^ 64 - 2 ^ 63"

definition buildVideo_fps :: "TimelapseConfig \<Rightarrow> int \<Rightarrow> int res" where
  "buildVideo_fps config count =
     (if VideoLenght config = 0 then Panic
      else Ret (max (wrap64 (count sdiv VideoLenght config)) (MinFPS config)))"

definition isTimelapseRunning :: "world \<Rightarrow> bool" where
  "isTimelapseRunning w = tlRunning w"

definition LastTLShot :: "env \<Rightarrow> world \<Rightarrow> (error + string) res" where
  "LastTLShot e w =
     (case timelapse w of
        None \<Rightarrow> Ret (Inl ErrNoTimelapse)
      | Some ses \<Rightarrow>
          (case lastTLShotInternal e (currentDir ses) of
             Panic \<Rightarrow> Panic
           | Ret (Inl err) \<Rightarrow> Ret (Inl err)
           | Ret (Inr (name, count)) \<Rightarrow> Ret (Inr name)))"

text \<open>
  \<^verbatim>\<open>takeShot\<close>; the file is named after \<^verbatim>\<open>time.Now().UnixMicro()\<close>. When
  \<^verbatim>\<open>TryLock\<close> succeeds, the deferred \<^verbatim>\<open>Unlock\<close> leaves the mutex unlocked, as it was
  found.
\<close>

definition takeShot :: "env \<Rightarrow> world \<Rightarrow> (error + string) \<times> world" where
  "takeShot e w =
     (let name = Join (tmpDir w) (Itoa (timeNow e div 1000) @ ''.jpg'') in
      if rpicamMutex w then (Inl ErrMutexLocked, w\<lparr>trace := trace w @ [MutexTryLock False]\<rparr>)
      else
        (if stillOK e name then Inr name else Inl ErrRunStill,
         w\<lparr>trace := trace w @ [MutexTryLock True, StillRun name (stillOK e name), MutexUnlock]\<rparr>))"

definition Snapshot :: "env \<Rightarrow> world \<Rightarrow> (error + string) res \<times> world" where
  "Snapshot e w =
     (if \<not> isTimelapseRunning w then
        (case takeShot e w of
           (Inl err, w') \<Rightarrow> (Ret (Inl (ErrTakeShot err)), w')
         | (Inr name, w') \<Rightarrow>
             (case readFile e name of
                None \<Rightarrow> (Ret (Inl ErrReadShot), w')
              | Some shot \<Rightarrow> (Ret (Inr shot), w')))
      else
        (case LastTLShot e w of
           Panic \<Rightarrow> (Panic, w)
         | Ret (Inl err) \<Rightarrow> (Ret (Inl (ErrLastTLShot err)), w)
         | Ret (Inr name) \<Rightarrow>
             (case readFile e name of
                None \<Rightarrow> (Ret (Inl ErrReadShot), w)
              | Some shot \<Rightarrow> (Ret (Inr shot), w))))"

text \<open>
  A run of the camera: poll ticks of \<^verbatim>\<open>initTimelapse\<close> and calls of \<^verbatim>\<open>Snapshot\<close>, one
  after another. A tick that panics or never returns ends the run (the loop has no
  \<^verbatim>\<open>recover\<close>); \<^verbatim>\<open>Snapshot\<close> changes nothing when it panics, so the run may go on.
\<close>

datatype call = Tick env | Snap env

fun run :: "call list \<Rightarrow> world \<Rightarrow> exit \<times> world" where
  "run [] w = (Returned, w)"
| "run (Tick e # cs) w =
     (case handleTimelapse e w of
        (Returned, w') \<Rightarrow> run cs w'
      | (Panicked, w') \<Rightarrow> (Panicked, w')
      | (Hung, w') \<Rightarrow> (Hung, w'))"
| "run (Snap e # cs) w = run cs (snd (Snapshot e w))"

section \<open>Reading a trace\<close>

text \<open>
  The camera device as the trace drives it: whether \<^verbatim>\<open>rpicamMutex\<close> is held and how
  many capture processes are alive. A step is \<open>None\<close> when the event cannot happen in
  that state (a lock taken twice, an unlock of a free mutex) or breaks the exclusive
  use of the device: a capture process is spawned without the mutex held, or while
  another capture process is alive.
\<close>

fun camera_step :: "bool \<times> nat \<Rightarrow> event \<Rightarrow> (bool \<times> nat) option" where
  "camera_step (held, n) MutexLock = (if held then None else Some (True, n))"
| "camera_step (held, n) (MutexTryLock ok) =
     (if ok then (if held then None else Some (True, n))
      else (if held then Some (held, n) else None))"
| "camera_step (held, n) MutexUnlock = (if held then Some (False, n) else None)"
| "camera_step (held, n) (CmdStart pattern) = (if held \<and> n = 0 then Some (held, 1) else None)"
| "camera_step (held, n) CmdStop = (if n = 1 then Some (held, 0) else None)"
| "camera_step (held, n) (StillRun name ok) = (if held \<and> n = 0 then Some (held, n) else None)"
| "camera_step (held, n) (Cp src dst ok) = Some (held, n)"
| "camera_step (held, n) (GoBuildVideo ses count) = Some (held, n)"

fun replay :: "event list \<Rightarrow> bool \<times> nat \<Rightarrow> (bool \<times> nat) option" where
  "replay [] s = Some s"
| "replay (ev # evs) s = (case camera_step s ev of None \<Rightarrow> None | Some s' \<Rightarrow> replay evs s')"

text \<open>
  Sessions created and not yet cleared: \<^verbatim>\<open>startTimelapse\<close> stores a session record
  exactly when it records \<open>CmdStart\<close>, and \<^verbatim>\<open>finishTimelapse\<close> sets it to nil exactly
  when it records \<open>GoBuildVideo\<close>.
\<close>

fun sessions :: "event list \<Rightarrow> int" where
  "sessions [] = 0"
| "sessions (CmdStart pattern # evs) = sessions evs + 1"
| "sessions (GoBuildVideo ses count # evs) = sessions evs - 1"
| "sessions (ev # evs) = sessions evs"

text \<open>The number of continuous capture processes the session record holds alive.\<close>

definition live :: "world \<Rightarrow> nat" where
  "live w =
     (case timelapse w of
        None \<Rightarrow> 0
      | Some ses \<Rightarrow> (if timelapseCommand ses = Running then 1 else 0))"

definition camera_inv :: "world \<Rightarrow> bool" where
  "camera_inv w =
     (tlRunning w = (timelapse w \<noteq> None) \<and> \<not> rpicamMutex w \<and>
      replay (trace w) (False, 0) = Some (False, live w) \<and>
      sessions (trace w) = (if timelapse w = None then 0 else 1))"

section \<open>Example surroundings\<close>

definition printing17 :: Status where
  "printing17 =
     \<lparr>Online = True, JobID = 17, FileName = ''bracket.gcode'', State = ''PRINTING'',
      Progress = 5\<rparr>"

definition entry :: "string \<Rightarrow> dirEntry" where
  "entry name = \<lparr>entryName = name, entryIsDir = False\<rparr>"

text \<open>
  Surroundings in which the printer answers \<open>p\<close>, every directory lists \<open>files\<close>, every
  file holds \<open>''JPEG''\<close>, the capture programs succeed, and \<^verbatim>\<open>cp\<close> refuses to copy a file
  onto itself.
\<close>

definition surroundings :: "error + Status \<Rightarrow> dirEntry list \<Rightarrow> env" where
  "surroundings p files =
     \<lparr>poll = p, mkdirTemp = Some ''/tmp/timelapse17'', waitPolls = [], startOK = True,
      timeNow = 1700000000 * second, readDir = (\<lambda>dir. Some files),
      sscanf = map_of [(''image000000.jpg'', 0), (''image000001.jpg'', 1), (''image000002.jpg'', 2)],
      stillOK = (\<lambda>name. True), cpOK = (\<lambda>src dst. src \<noteq> dst),
      readFile = (\<lambda>name. Some ''JPEG'')\<rparr>"

definition frames3 :: "dirEntry list" where
  "frames3 = [entry ''image000000.jpg'', entry ''image000001.jpg'', entry ''image000002.jpg'']"

text \<open>The camera after one poll tick that saw job 17 printing.\<close>

definition started :: world where
  "started = snd (handleTimelapse (surroundings (Inr printing17) []) (newTimelapse ''/tmp/cam''))"

definition tick_start :: env where
  "tick_start = surroundings (Inr printing17) []"

text \<open>A poll tick on which the printer answers 204 and the session directory holds three frames.\<close>

definition tick_stop :: env where
  "tick_stop = surroundings (jobStatus (Response 204 None)) frames3"

text \<open>
  Surroundings of a snapshot in which the session directory lists \<open>files\<close> and
  the files hold \<open>contents\<close>.
\<close>

definition snap :: "dirEntry list \<Rightarrow> (string \<times> string) list \<Rightarrow> env" where
  "snap files contents = (surroundings (Inl ErrMakeRequest) files)\<lparr>readFile := map_of contents\<rparr>"

text \<open>The session directory after three frames.\<close>

definition snap_three :: env where
  "snap_three =
     snap frames3
       [(''/tmp/timelapse17/image000000.jpg'', ''FRAME 0''),
        (''/tmp/timelapse17/image000001.jpg'', ''FRAME 1''),
        (''/tmp/timelapse17/image000002.jpg'', ''FRAME 2'')]"

text \<open>
  The session directory holding the frames numbered 999999 and 1000000, listed by
  name as \<^verbatim>\<open>os.ReadDir\<close> does.
\<close>

definition snap_million :: env where
  "snap_million =
     snap [entry ''image1000000.jpg'', entry ''image999999.jpg'']
       [(''/tmp/timelapse17/image1000000.jpg'', ''FRAME 1000000''),
        (''/tmp/timelapse17/image999999.jpg'', ''FRAME 999999'')]"

text \<open>The session directory after two frames, with a file that is not of the capture.\<close>

definition snap_foreign :: env where
  "snap_foreign =
     snap [entry ''image000000.jpg'', entry ''image000001.jpg'', entry ''old.jpg'']
       [(''/tmp/timelapse17/image000000.jpg'', ''FRAME 0''),
        (''/tmp/timelapse17/image000001.jpg'', ''FRAME 1''),
        (''/tmp/timelapse17/old.jpg'', ''FOREIGN'')]"

text \<open>The printer answering 200 with job 17 printing at progress \<open>p\<close>.\<close>

definition answer :: "real \<Rightarrow> http" where
  "answer p =
     Response 200 (Some \<lparr>resp_ID = 17, resp_State = ''PRINTING'', resp_Progress = p,
       resp_DisplayName = ''bracket.gcode''\<rparr>)"

text \<open>A fresh client after one successful poll.\<close>

definition polled_once :: client where
  "polled_once =
     fst (snd (JobStatus NewClient (1700000000 * second) (answer 5) (1700000001 * second)))"

section \<open>The status client\<close>

text \<open>
  A time-out of \<^verbatim>\<open>httpClient.Do\<close> is the offline status and no error, also through
  \<^verbatim>\<open>JobStatus\<close> when the request is sent.
\<close>

lemma Do_timeout_is_offline_status:
  "jobStatus (DoFailed True) =
     Inr \<lparr>Online = False, JobID = 0, FileName = [], State = [], Progress = 0\<rparr>
   \<and> (fst (jobStatusFromCache c t) = None \<longrightarrow>
        fst (JobStatus c t (DoFailed True) t') =
          Inr \<lparr>Online = False, JobID = 0, FileName = [], State = [], Progress = 0\<rparr>)"
  by (auto simp: JobStatus_def Status0_def split: prod.splits option.splits)

text \<open>
  C4 (a time-out of the request to the status source is the offline status, never an
  error). The printer sends the head of its answer in time and the deadline passes
  while \<^verbatim>\<open>io.ReadAll\<close> reads the body: \<^verbatim>\<open>jobStatus\<close> tests for
  \<^verbatim>\<open>context.DeadlineExceeded\<close> only on the error of \<^verbatim>\<open>httpClient.Do\<close>, and returns
  this time-out as the error of reading the body; \<^verbatim>\<open>JobStatus\<close> hands the error to its
  caller and caches nothing.
\<close>

theorem C4_body_read_timeout_is_error:
  "jobStatus (ReadAllFailed True) = Inl ErrReadBody
   \<and> JobStatus NewClient (1700000000 * second) (ReadAllFailed True) (1700000001 * second) =
       (Inl ErrReadBody, NewClient, 1)"
  by (simp add: JobStatus_def jobStatusFromCache_def NewClient_def zeroTime_def second_def)

text \<open>
  The cache check clears the entry whenever the entry is not from the future: with a
  clock that does not run backwards, \<^verbatim>\<open>jobStatusFromCache\<close> never serves a status.
\<close>

lemma cache_never_serves:
  "cachedTime c \<le> t \<Longrightarrow> jobStatusFromCache c t = (None, c\<lparr>cachedStatus := None\<rparr>)"
  by (simp add: jobStatusFromCache_def second_def)

lemma polled_once_eq: "polled_once = \<lparr>cachedStatus = Some printing17, cachedTime = 1700000001 * second\<rparr>"
  by (simp add: polled_once_def JobStatus_def jobStatusFromCache_def NewClient_def zeroTime_def
      second_def answer_def parseJobResponse_def jobStatusToCache_def printing17_def)

text \<open>
  C3 (a second poll within ten seconds is served from the cache). A fresh client
  polls at second 1700000000 and is answered job 17 at progress 5, which it caches;
  it polls again five seconds later, when the printer would answer progress 6. The
  second poll finds \<open>cachedTime < now + 10 s\<close>, drops the cached status, sends a second
  request and returns the new answer.
\<close>

theorem C3_second_poll_asks_again:
  "JobStatus NewClient (1700000000 * second) (answer 5) (1700000001 * second) =
     (Inr printing17, polled_once, 1)
   \<and> cachedStatus polled_once = Some printing17
   \<and> JobStatus polled_once (1700000005 * second) (answer 6) (1700000006 * second) =
     (Inr (printing17\<lparr>Progress := 6\<rparr>),
      \<lparr>cachedStatus = Some (printing17\<lparr>Progress := 6\<rparr>), cachedTime = 1700000006 * second\<rparr>, 1)"
  by (simp add: polled_once_eq JobStatus_def jobStatusFromCache_def NewClient_def zeroTime_def
      second_def answer_def parseJobResponse_def jobStatusToCache_def printing17_def)

section \<open>The events of a run\<close>

lemma replay_append:
  "replay (xs @ ys) s = (case replay xs s of None \<Rightarrow> None | Some s' \<Rightarrow> replay ys s')"
  by (induction xs arbitrary: s) (auto split: option.splits)

lemma sessions_append: "sessions (xs @ ys) = sessions xs + sessions ys"
  by (induction xs rule: sessions.induct) auto

lemma cpLoop_replay: "replay (snd (cpLoop e name dir i hi)) s = Some s"
proof (induction e name dir i hi rule: cpLoop.induct)
  case (1 e name dir i hi)
  obtain held n where s: "s = (held, n)" by (cases s)
  show ?case
    using 1 by (subst cpLoop.simps) (auto simp: s split: prod.splits)
qed

lemma cpLoop_sessions: "sessions (snd (cpLoop e name dir i hi)) = 0"
proof (induction e name dir i hi rule: cpLoop.induct)
  case (1 e name dir i hi)
  show ?case
    using 1 by (subst cpLoop.simps) (auto split: prod.splits)
qed

lemma inv_newTimelapse: "camera_inv (newTimelapse tmp)"
  by (simp add: camera_inv_def newTimelapse_def live_def)

lemma inv_startTimelapse:
  assumes "camera_inv w" "\<not> tlRunning w"
  shows "camera_inv (snd (startTimelapse e st w))"
  using assms
  by (auto simp: camera_inv_def startTimelapse_def live_def Let_def replay_append sessions_append
      split: option.splits)

lemma inv_takeLastShot:
  assumes "\<not> rpicamMutex w" "replay (trace w) (False, 0) = Some (False, 0)"
    and "takeLastShot e dir i c w = (r, w')"
  shows "\<not> rpicamMutex w' \<and> replay (trace w') (False, 0) = Some (False, 0)
     \<and> sessions (trace w') = sessions (trace w) \<and> tlRunning w' = tlRunning w
     \<and> timelapse w' = timelapse w"
proof (cases "stillOK e (shotFilename dir i)")
  case True
  obtain r0 evs where c: "cpLoop e (shotFilename dir i) dir i (i + c + 1) = (r0, evs)"
    by (cases "cpLoop e (shotFilename dir i) dir i (i + c + 1)")
  have "replay evs (True, 0) = Some (True, 0)" "sessions evs = 0"
    using cpLoop_replay [of e "shotFilename dir i" dir i "i + c + 1" "(True, 0)"]
      cpLoop_sessions [of e "shotFilename dir i" dir i "i + c + 1"] c by simp_all
  then show ?thesis
    using assms True c
    by (auto simp: takeLastShot_def Let_def replay_append sessions_append)
next
  case False
  then show ?thesis
    using assms
    by (auto simp: takeLastShot_def Let_def replay_append sessions_append)
qed

lemma takeLastShot_svc:
  "takeLastShot e dir i c w = (r, w') \<Longrightarrow> tlRunning w' = tlRunning w \<and> timelapse w' = timelapse w"
  by (auto simp: takeLastShot_def Let_def split: if_splits prod.splits)

lemma inv_finishTimelapse:
  assumes "camera_inv w"
  shows "camera_inv (snd (finishTimelapse e w))"
proof (cases "timelapse w")
  case None
  then show ?thesis using assms by (simp add: finishTimelapse_def)
next
  case (Some ses)
  define w1 where "w1 = w\<lparr>timelapse := Some (ses\<lparr>timelapseCommand := Exited\<rparr>),
      trace := trace w @ (if timelapseCommand ses = Running then [CmdStop] else [])\<rparr>"
  have w1: "tlRunning w1" "timelapse w1 \<noteq> None" "\<not> rpicamMutex w1"
    "replay (trace w1) (False, 0) = Some (False, 0)" "sessions (trace w1) = 1"
    using assms Some
    by (auto simp: camera_inv_def w1_def live_def replay_append sessions_append)
  then have inv1: "camera_inv w1"
    by (auto simp: camera_inv_def live_def w1_def)
  show ?thesis
  proof (cases "lastTLShotInternal e (currentDir ses)")
    case Panic
    then show ?thesis using Some inv1 by (simp add: finishTimelapse_def w1_def Let_def)
  next
    case (Ret x)
    show ?thesis
    proof (cases x)
      case (Inl err)
      then show ?thesis using Some inv1 Ret by (simp add: finishTimelapse_def w1_def Let_def)
    next
      case (Inr nc)
      obtain name count where nc: "nc = (name, count)" by (cases nc)
      show ?thesis
      proof (cases "getShotID e name")
        case (Inl err)
        then show ?thesis using Some inv1 Ret Inr nc
          by (simp add: finishTimelapse_def w1_def Let_def)
      next
        case i: (Inr i)
        obtain r w2 where t: "takeLastShot e (currentDir ses) i (count sdiv 10) w1 = (r, w2)"
          by (cases "takeLastShot e (currentDir ses) i (count sdiv 10) w1")
        note k = inv_takeLastShot [OF w1(3) w1(4) t]
        have inv2: "camera_inv w2"
          using k w1 by (auto simp: camera_inv_def live_def w1_def)
        show ?thesis
        proof (cases r)
          case None
          then show ?thesis using Some Ret Inr nc i t inv2
            by (simp add: finishTimelapse_def Let_def flip: w1_def)
        next
          case (Some r')
          have "camera_inv (w2\<lparr>tlRunning := False, timelapse := None,
              trace := trace w2 @ [GoBuildVideo (ses\<lparr>timelapseCommand := Exited\<rparr>) count]\<rparr>)"
            using k w1 by (auto simp: camera_inv_def live_def replay_append sessions_append)
          then show ?thesis using \<open>timelapse w = Some ses\<close> Ret Inr nc i t Some
            by (simp add: finishTimelapse_def Let_def flip: w1_def)
        qed
      qed
    qed
  qed
qed

lemma inv_handleTimelapse: "camera_inv w \<Longrightarrow> camera_inv (snd (handleTimelapse e w))"
  by (auto simp: handleTimelapse_def inv_startTimelapse inv_finishTimelapse split: sum.splits)

lemma inv_takeShot: "camera_inv w \<Longrightarrow> \<not> tlRunning w \<Longrightarrow> camera_inv (snd (takeShot e w))"
  by (auto simp: camera_inv_def takeShot_def Let_def live_def replay_append sessions_append)

lemma Snapshot_running: "tlRunning w \<Longrightarrow> snd (Snapshot e w) = w"
  by (auto simp: Snapshot_def isTimelapseRunning_def split: res.splits sum.splits option.splits)

lemma Snapshot_idle: "\<not> tlRunning w \<Longrightarrow> snd (Snapshot e w) = snd (takeShot e w)"
  by (auto simp: Snapshot_def isTimelapseRunning_def split: prod.splits sum.splits option.splits)

lemma inv_Snapshot: "camera_inv w \<Longrightarrow> camera_inv (snd (Snapshot e w))"
  by (cases "tlRunning w") (simp_all add: Snapshot_running Snapshot_idle inv_takeShot)

lemma inv_run: "camera_inv w \<Longrightarrow> camera_inv (snd (run cs w))"
proof (induction cs arbitrary: w)
  case Nil
  then show ?case by simp
next
  case (Cons c cs)
  show ?case
  proof (cases c)
    case (Tick e)
    obtain x w' where h: "handleTimelapse e w = (x, w')" by (cases "handleTimelapse e w")
    have "camera_inv w'" using inv_handleTimelapse [OF Cons.prems, of e] h by simp
    then show ?thesis using Tick h Cons.IH [of w'] by (cases x) simp_all
  next
    case (Snap e)
    then show ?thesis using Cons.IH [OF inv_Snapshot [OF Cons.prems, of e]] by simp
  qed
qed

section \<open>The time-lapse state machine\<close>

lemma finish_iff:
  assumes "tlRunning w" "timelapse w \<noteq> None"
  shows "tlRunning (snd (finishTimelapse e w)) = (timelapse (snd (finishTimelapse e w)) \<noteq> None)"
  using assms
  by (auto simp: finishTimelapse_def Let_def
      split: sum.splits option.splits res.splits prod.splits dest!: takeLastShot_svc)

lemma start_iff:
  assumes "tlRunning w = (timelapse w \<noteq> None)"
  shows "tlRunning (snd (startTimelapse e st w)) = (timelapse (snd (startTimelapse e st w)) \<noteq> None)"
  using assms by (auto simp: startTimelapse_def Let_def split: option.splits)

lemma step_iff:
  "tlRunning w = (timelapse w \<noteq> None) \<Longrightarrow>
   tlRunning (snd (handleTimelapse e w)) = (timelapse (snd (handleTimelapse e w)) \<noteq> None)"
  using finish_iff [of w e] start_iff [of w e]
  by (auto simp: handleTimelapse_def split: sum.splits)

lemma started_eq: "started = \<lparr>tlRunning = True,
       timelapse =
         Some
          \<lparr>currentDir = ''/tmp/timelapse17'', startTime = 1700000000000000000,
             jobID = 17, jobName = ''bracket.gcode'', timelapseCommand = Running\<rparr>,
       tmpDir = ''/tmp/cam'', rpicamMutex = False,
       trace = [MutexLock, CmdStart ''/tmp/timelapse17/image%06d.jpg'', MutexUnlock]\<rparr>"
  by (simp add: started_def handleTimelapse_def surroundings_def printing17_def newTimelapse_def
     timelapseShouldStart_def StatusPrinting_def startTimelapse_def waitProgress.simps jobName_of_def second_def)

text \<open>
  C1: after every sequence of poll ticks (and snapshot calls in between) from the
  initial state, the running flag is true exactly when the session record is
  non-nil, and the sessions created and not yet cleared number one when the record
  is non-nil and none otherwise, so there is never a second one. Every single tick,
  whether it starts, finishes or does nothing, keeps the flag and the record in step.
\<close>

theorem C1_session_iff_running:
  "tlRunning (snd (run cs (newTimelapse tmp))) = (timelapse (snd (run cs (newTimelapse tmp))) \<noteq> None)
   \<and> sessions (trace (snd (run cs (newTimelapse tmp)))) =
       (if timelapse (snd (run cs (newTimelapse tmp))) = None then 0 else 1)
   \<and> (tlRunning w = (timelapse w \<noteq> None) \<longrightarrow>
       tlRunning (snd (handleTimelapse e w)) = (timelapse (snd (handleTimelapse e w)) \<noteq> None))"
  using inv_run [OF inv_newTimelapse, of cs tmp] step_iff [of w e]
  by (simp add: camera_inv_def)

theorem C1_session_iff_running_witness:
  "tlRunning started = (timelapse started \<noteq> None) \<and>
   tlRunning (snd (handleTimelapse tick_stop started)) =
     (timelapse (snd (handleTimelapse tick_stop started)) \<noteq> None)"
proof -
  have h: "tlRunning started = (timelapse started \<noteq> None)" by (simp add: started_eq)
  show ?thesis using h C1_session_iff_running [of "[]" "''/tmp/cam''" started tick_stop] by simp
qed

text \<open>
  C5 (finishing always clears the session). A session is running, the printer
  reports FINISHED, and the session directory holds no frame: \<^verbatim>\<open>lastTLShotInternal\<close>
  returns its error and \<^verbatim>\<open>finishTimelapse\<close> returns before the lines that clear the
  session. The capture process is stopped, the flag stays true and the record stays.
\<close>

theorem C5_early_return_keeps_session:
  "timelapseShouldStop (State (Status0\<lparr>Online := True, State := StatusFinished\<rparr>))
   \<and> tlRunning started
   \<and> handleTimelapse (surroundings (Inr (Status0\<lparr>Online := True, State := StatusFinished\<rparr>)) []) started =
      (Returned, started\<lparr>timelapse := map_option (timelapseCommand_update (\<lambda>_. Exited)) (timelapse started),
                         trace := trace started @ [CmdStop]\<rparr>)
   \<and> tlRunning (snd (handleTimelapse (surroundings (Inr (Status0\<lparr>Online := True, State := StatusFinished\<rparr>)) []) started))"
  by code_simp

text \<open>
  C10: an answer 204 from the printer is the status online with state FINISHED and no
  error, also through \<^verbatim>\<open>JobStatus\<close> when the request is sent; FINISHED is a stop state;
  and a tick that polls this status while a session is running is
  \<^verbatim>\<open>finishTimelapse\<close>.
\<close>

theorem C10_no_job_finishes_timelapse:
  "jobStatus (Response 204 body) =
     Inr \<lparr>Online = True, JobID = 0, FileName = [], State = ''FINISHED'', Progress = 0\<rparr>
   \<and> timelapseShouldStop ''FINISHED''
   \<and> (fst (jobStatusFromCache c t) = None \<longrightarrow>
        fst (JobStatus c t (Response 204 body) t') =
          Inr \<lparr>Online = True, JobID = 0, FileName = [], State = ''FINISHED'', Progress = 0\<rparr>)
   \<and> (tlRunning w \<and> poll e = jobStatus (Response 204 body) \<longrightarrow>
        handleTimelapse e w = finishTimelapse e w)"
  by (auto simp: JobStatus_def Status0_def StatusFinished_def timelapseShouldStop_def
      handleTimelapse_def split: prod.splits option.splits)

theorem C10_no_job_finishes_timelapse_witness:
  "fst (jobStatusFromCache NewClient 0) = None
   \<and> tlRunning started \<and> poll tick_stop = jobStatus (Response 204 None)
   \<and> handleTimelapse tick_stop started = finishTimelapse tick_stop started
   \<and> fst (handleTimelapse tick_stop started) = Returned
   \<and> \<not> tlRunning (snd (handleTimelapse tick_stop started))"
proof -
  have a: "fst (jobStatusFromCache NewClient 0) = None"
    by (simp add: jobStatusFromCache_def NewClient_def zeroTime_def second_def)
  have b: "tlRunning started" by code_simp
  have c: "poll tick_stop = jobStatus (Response 204 None)" by (simp add: tick_stop_def surroundings_def)
  have d: "fst (handleTimelapse tick_stop started) = Returned"
     "\<not> tlRunning (snd (handleTimelapse tick_stop started))" by code_simp+
  show ?thesis using C10_no_job_finishes_timelapse [of None NewClient 0 0 started tick_stop] a b c d by simp
qed

section \<open>The arbitration lock\<close>

text \<open>
  When poll ticks and snapshot calls are made in turn, none starting before the one
  before it has returned, the mutex is free after each of them, every capture process
  in the trace was spawned with the mutex held and with no other capture process
  alive, and the capture processes alive at the end are the one the session record
  holds, if any. The next theorem leaves that order.
\<close>

lemma calls_in_turn_keep_camera_exclusive:
  "\<not> rpicamMutex (snd (run cs (newTimelapse tmp)))
   \<and> replay (trace (snd (run cs (newTimelapse tmp)))) (False, 0) =
       Some (False, live (snd (run cs (newTimelapse tmp))))"
  using inv_run [OF inv_newTimelapse, of cs tmp] by (simp add: camera_inv_def)

text \<open>
  C2 (the lock is held for as long as the capture process of a session lives, so that
  at most one capture process runs at any instant). A \<^verbatim>\<open>Snapshot\<close> reads
  \<^verbatim>\<open>isTimelapseRunning\<close> as false on the fresh camera; before it goes on, the poll tick
  sees job 17 printing and \<^verbatim>\<open>startTimelapse\<close> starts the capture and returns, its
  deferred \<^verbatim>\<open>Unlock\<close> releasing \<^verbatim>\<open>rpicamMutex\<close>: the capture process is alive and the
  mutex is free. The \<^verbatim>\<open>takeShot\<close> of the snapshot then acquires the mutex and runs a
  second capture process beside the first.
\<close>

theorem C2_lock_free_while_capturing:
  "\<not> isTimelapseRunning (newTimelapse ''/tmp/cam'')
   \<and> handleTimelapse tick_start (newTimelapse ''/tmp/cam'') = (Returned, started)
   \<and> live started = 1 \<and> \<not> rpicamMutex started
   \<and> fst (takeShot tick_stop started) = Inr ''/tmp/cam/1700000000000000.jpg''
   \<and> trace (snd (takeShot tick_stop started)) =
       [MutexLock, CmdStart ''/tmp/timelapse17/image%06d.jpg'', MutexUnlock,
        MutexTryLock True, StillRun ''/tmp/cam/1700000000000000.jpg'' True, MutexUnlock]
   \<and> replay (trace (snd (takeShot tick_stop started))) (False, 0) = None"
  by code_simp

section \<open>Frame names\<close>

lemma digits_nonempty: "digits n \<noteq> []"
  by (subst digits.simps) simp

lemma digits_length: "0 < k \<Longrightarrow> n < 10 ^ k \<Longrightarrow> length (digits n) \<le> k"
proof (induction n arbitrary: k rule: digits.induct)
  case (1 n)
  show ?case
  proof (cases "n < 10")
    case True
    then show ?thesis using 1(2) by (subst digits.simps) simp
  next
    case False
    obtain k' where k: "k = Suc k'" using 1(2) by (cases k) auto
    have "k' \<noteq> 0" using False 1(3) k by (cases k') auto
    moreover have "n div 10 < 10 ^ k'" using 1(3) k by simp
    ultimately have "length (digits (n div 10)) \<le> k'" using 1(1) [OF False, of k'] by simp
    then show ?thesis using False k by (subst digits.simps) simp
  qed
qed

lemma digit_char: "CHR '' '' < ''0123456789'' ! nat n" if "n < 10"
proof -
  have "nat n \<in> {0,1,2,3,4,5,6,7,8,9}" using that by auto
  then show ?thesis by (auto simp: less_char_def)
qed

lemma digits_hd: "CHR '' '' < hd (digits n)"
proof (induction n rule: digits.induct)
  case (1 n)
  show ?case
  proof (cases "n < 10")
    case True
    then show ?thesis by (subst digits.simps) (simp add: digit_char)
  next
    case False
    then show ?thesis using 1 digits_nonempty [of "n div 10"]
      by (subst digits.simps) simp
  qed
qed

lemma length_dec: "length (dec k n) = k"
  by (induction k arbitrary: n) auto

lemma dec_zero: "dec k 0 = replicate k CHR ''0''"
  by (induction k) (auto simp: replicate_append_same)

lemma pad_digits: "0 \<le> n \<Longrightarrow> n < 10 ^ k \<Longrightarrow> 0 < k \<Longrightarrow> pad_left CHR ''0'' k (digits n) = dec k n"
proof (induction k arbitrary: n)
  case 0
  then show ?case by simp
next
  case (Suc k)
  show ?case
  proof (cases "n < 10")
    case True
    then have "n div 10 = 0" "n mod 10 = n" using Suc.prems by simp_all
    then show ?thesis using True
      by (subst digits.simps) (simp add: pad_left_def dec_zero)
  next
    case False
    have k: "0 < k" using False Suc.prems by (cases k) auto
    have r: "0 \<le> n div 10" "n div 10 < 10 ^ k" using Suc.prems by simp_all
    have l: "length (digits (n div 10)) \<le> k" using digits_length [OF k r(2)] .
    have "pad_left CHR ''0'' (Suc k) (digits n) =
        pad_left CHR ''0'' k (digits (n div 10)) @ [''0123456789'' ! nat (n mod 10)]"
      using False l by (subst digits.simps) (simp add: pad_left_def Suc_diff_le)
    then show ?thesis using Suc.IH [OF r k] by simp
  qed
qed

lemma snoc_less:
  "length xs = length ys \<Longrightarrow> (xs @ [a] < ys @ [b]) = (xs < ys \<or> xs = ys \<and> a < (b::char))"
  by (induction xs ys rule: list_induct2) auto

lemma digit_less:
  assumes "0 \<le> a" "a < 10" "0 \<le> b" "b < 10"
  shows "(''0123456789'' ! nat a < ''0123456789'' ! nat b) = (a < b)"
    and "(''0123456789'' ! nat a = ''0123456789'' ! nat b) = (a = b)"
proof -
  have d: "(of_char (''0123456789'' ! nat x) :: nat) = 48 + nat x" if "0 \<le> x" "x < 10" for x :: int
  proof -
    have "x = 0 \<or> x = 1 \<or> x = 2 \<or> x = 3 \<or> x = 4 \<or> x = 5 \<or> x = 6 \<or> x = 7 \<or> x = 8 \<or> x = 9"
      using that by arith
    then show ?thesis by auto
  qed
  show "(''0123456789'' ! nat a < ''0123456789'' ! nat b) = (a < b)"
    using assms by (auto simp: less_char_def d)
  have "(''0123456789'' ! nat a = ''0123456789'' ! nat b) =
      ((of_char (''0123456789'' ! nat a) :: nat) = of_char (''0123456789'' ! nat b))"
    by simp
  then show "(''0123456789'' ! nat a = ''0123456789'' ! nat b) = (a = b)"
    using assms by (simp only: d) auto
qed

lemma dec_order:
  "0 \<le> i \<Longrightarrow> i < 10 ^ k \<Longrightarrow> 0 \<le> j \<Longrightarrow> j < 10 ^ k \<Longrightarrow>
     (dec k i < dec k j) = (i < j) \<and> (dec k i = dec k j) = (i = j)"
proof (induction k arbitrary: i j)
  case 0
  then show ?case by simp
next
  case (Suc k)
  have r: "0 \<le> i div 10" "i div 10 < 10 ^ k" "0 \<le> j div 10" "j div 10 < 10 ^ k"
    using Suc.prems by simp_all
  note ih = Suc.IH [OF r]
  have m: "0 \<le> i mod 10" "i mod 10 < 10" "0 \<le> j mod 10" "j mod 10 < 10" by simp_all
  note dl = digit_less [OF m]
  define qi ri qj rj where q: "qi = i div 10" "ri = i mod 10" "qj = j div 10" "rj = j mod 10"
  have ij: "i = 10 * qi + ri" "j = 10 * qj + rj" by (simp_all add: q)
  have bnd: "0 \<le> ri" "ri < 10" "0 \<le> rj" "rj < 10" by (simp_all add: q)
  have "(i < j) = (qi < qj \<or> qi = qj \<and> ri < rj)"
    using bnd ij by arith
  then have lt: "(i < j) = (i div 10 < j div 10 \<or> i div 10 = j div 10 \<and> i mod 10 < j mod 10)"
    unfolding q .
  have eq: "(i = j) = (i div 10 = j div 10 \<and> i mod 10 = j mod 10)"
    by (metis div_mult_mod_eq)
  have a: "(dec (Suc k) i < dec (Suc k) j) =
      (i div 10 < j div 10 \<or> i div 10 = j div 10 \<and> i mod 10 < j mod 10)"
    using ih dl by (simp add: snoc_less length_dec)
  have b: "(dec (Suc k) i = dec (Suc k) j) = (i div 10 = j div 10 \<and> i mod 10 = j mod 10)"
    using ih dl by simp
  show ?case
    using a b lt eq by blast
qed

lemma append_less_same: "(xs @ ys < xs @ zs) = (ys < (zs :: string))"
  by (induction xs) auto

lemma append_less_right: "length xs = length ys \<Longrightarrow> (xs @ zs < ys @ zs) = (xs < (ys::string))"
  by (induction xs ys rule: list_induct2) auto

text \<open>
  The frames of the continuous capture, named by \<^verbatim>\<open>image%06d.jpg\<close>, sort by name in
  the order of their sequence numbers, as long as these stay below a million.
\<close>

lemma frames_sorted_by_number:
  assumes "0 \<le> i" "i < j" "j < 1000000"
  shows "frame_name_spec dir i < frame_name_spec dir j"
proof -
  have i: "fmt_06d i = dec 6 i" using assms pad_digits [of i 6] by (simp add: fmt_06d_def)
  have j: "fmt_06d j = dec 6 j" using assms pad_digits [of j 6] by (simp add: fmt_06d_def)
  have "dec 6 i < dec 6 j" using dec_order [of i 6 j] assms by simp
  then have "dec 6 i @ ''.jpg'' < dec 6 j @ ''.jpg''"
    using append_less_right [of "dec 6 i" "dec 6 j" "''.jpg''"] by (simp add: length_dec)
  then have "''/image'' @ dec 6 i @ ''.jpg'' < ''/image'' @ dec 6 j @ ''.jpg''"
    by (simp only: append_less_same)
  then show ?thesis
    unfolding frame_name_spec_def i j by (simp only: append_less_same)
qed

text \<open>
  A name made by \<^verbatim>\<open>shotFilename\<close> for a number below 100000 starts its number with a
  space and sorts before every frame of the continuous capture.
\<close>

lemma shotFilename_before_frames:
  assumes "0 \<le> i" "i < 100000" "0 \<le> j"
  shows "shotFilename dir i < frame_name_spec dir j"
proof -
  have "length (digits i) \<le> 5" using digits_length [of 5 i] assms by simp
  then obtain m where m: "6 - length (digits i) = Suc m" by (cases "6 - length (digits i)") auto
  have a: "fmt_6d i = CHR '' '' # replicate m CHR '' '' @ digits i"
    using assms m by (simp add: fmt_6d_def Itoa_def pad_left_def)
  obtain c r where b: "fmt_06d j = c # r" and c: "CHR '' '' < c"
  proof (cases "6 - length (digits j)")
    case 0
    then have "fmt_06d j = hd (digits j) # tl (digits j)"
      using assms digits_nonempty [of j] by (simp add: fmt_06d_def pad_left_def)
    then show ?thesis using that digits_hd [of j] by blast
  next
    case (Suc k)
    then have "fmt_06d j = CHR ''0'' # replicate k CHR ''0'' @ digits j"
      using assms by (simp add: fmt_06d_def pad_left_def)
    moreover have "CHR '' '' < CHR ''0''" by (simp add: less_char_def)
    ultimately show ?thesis using that by blast
  qed
  have "fmt_6d i @ ''.jpg'' < fmt_06d j @ ''.jpg''" using a b c by simp
  then have "''/image'' @ fmt_6d i @ ''.jpg'' < ''/image'' @ fmt_06d j @ ''.jpg''"
    by (simp only: append_less_same)
  then show ?thesis
    unfolding shotFilename_def frame_name_spec_def by (simp only: append_less_same)
qed

section \<open>The last frame and the snapshot\<close>

lemma lastTLShotLoop_empty: "lastTLShotLoop dir [] (- 1) = Ret (Inl ErrNoShots)"
  by (simp add: lastTLShotLoop.simps)

lemma lastTLShotLoop_last:
  assumes "files \<noteq> []"
  shows "lastTLShotLoop dir files (int (length files) - 1) =
     (if \<not> entryIsDir (last files) \<and> HasSuffix (entryName (last files)) ''.jpg''
      then Ret (Inr (Join dir (entryName (last files)), int (length files)))
      else Panic)"
proof -
  have n: "nat (int (length files) - 1) = length files - 1" by simp
  have l: "files ! (length files - Suc 0) = last files"
    using assms by (simp add: last_conv_nth)
  have p: "lastTLShotLoop dir files (int (length files)) = Panic"
    by (subst lastTLShotLoop.simps) simp
  have "0 < length files" using assms by simp
  then show ?thesis
    by (subst lastTLShotLoop.simps) (simp add: n l p)
qed

lemma lastTLShotInternal_cases:
  "lastTLShotInternal e dir =
     (case readDir e dir of
        None \<Rightarrow> Ret (Inl ErrReadDir)
      | Some files \<Rightarrow>
          if files = [] then Ret (Inl ErrNoShots)
          else if \<not> entryIsDir (last files) \<and> HasSuffix (entryName (last files)) ''.jpg''
          then Ret (Inr (Join dir (entryName (last files)), int (length files)))
          else Panic)"
  by (auto simp: lastTLShotInternal_def lastTLShotLoop_last lastTLShotLoop_empty split: option.splits)

lemma sorted_le_last: "sorted xs \<Longrightarrow> x \<in> set xs \<Longrightarrow> x \<le> last xs"
  by (induction xs) (auto)

text \<open>
  C6 (the scan returns the last \<^verbatim>\<open>.jpg\<close> of any listing, without indexing out of
  range). The listing holds a frame and, after it, a file that is not a \<^verbatim>\<open>.jpg\<close>: the
  loop starts at the last entry, steps its index up, and \<^verbatim>\<open>files[i]\<close> is out of range.
\<close>

theorem C6_scan_indexes_out_of_range:
  "lastTLShotInternal (surroundings (Inl ErrReadBody) [entry ''image000000.jpg'', entry ''notes.txt'']) ''/tmp/timelapse17'' = Panic"
  by code_simp

lemma frame_name_spec_Join: "frame_name_spec dir i = Join dir (frame_file i)"
  by (simp add: frame_name_spec_def Join_def frame_file_def)

lemma frame_file_less:
  assumes "0 \<le> i" "i < j" "j < 1000000"
  shows "frame_file i < frame_file j"
  using frames_sorted_by_number [OF assms, of "[]"]
  by (simp add: frame_name_spec_def frame_file_def)

lemma frame_file_le_imp:
  assumes "0 \<le> i" "i < 1000000" "0 \<le> j" "j < 1000000" "frame_file i \<le> frame_file j"
  shows "i \<le> j"
proof (rule ccontr)
  assume "\<not> i \<le> j"
  then have "frame_file j < frame_file i" using assms frame_file_less [of j i] by simp
  then show False using assms(5) by simp
qed

lemma sorted_frame_numbers:
  assumes "sorted (map frame_file ns)" "\<forall>n \<in> set ns. 0 \<le> n \<and> n < 1000000"
  shows "sorted ns"
  using assms
proof (induction ns)
  case Nil
  then show ?case by simp
next
  case (Cons n ns)
  have "\<forall>m \<in> set ns. n \<le> m"
  proof
    fix m assume m: "m \<in> set ns"
    then have "frame_file n \<le> frame_file m" using Cons.prems(1) by auto
    then show "n \<le> m" using frame_file_le_imp [of n m] Cons.prems(2) m by simp
  qed
  then show ?case using Cons by simp
qed

lemma sorted_last_Max: "sorted ns \<Longrightarrow> ns \<noteq> [] \<Longrightarrow> last ns = Max (set (ns :: int list))"
proof -
  assume a: "sorted ns" "ns \<noteq> []"
  have "last ns \<in> set ns" using a by simp
  moreover have "\<forall>n \<in> set ns. n \<le> last ns" using a sorted_le_last [of ns] by blast
  ultimately show ?thesis by (intro Max_eqI [symmetric]) auto
qed

lemma last_frame_is_latest:
  assumes "sorted (map entryName files)" "map entryName files = map frame_file ns"
    "\<forall>n \<in> set ns. 0 \<le> n \<and> n < 1000000" "files \<noteq> []"
  shows "entryName (last files) = frame_file (Max (set ns))"
proof -
  have ne: "ns \<noteq> []" using assms(2,4) by auto
  have "sorted ns" using sorted_frame_numbers assms by simp
  then have "last ns = Max (set ns)" using ne by (rule sorted_last_Max)
  moreover have "entryName (last files) = last (map entryName files)"
    using assms(4) by (simp add: last_map)
  moreover have "last (map frame_file ns) = frame_file (last ns)" using ne by (simp add: last_map)
  ultimately show ?thesis using assms(2) by simp
qed

text \<open>
  C7 (a snapshot during a session returns the most recently written frame). The
  capture numbers its frames upwards, so of the frames 999999 and 1000000 the second
  is the one written last; its name has seven digits and sorts first. \<^verbatim>\<open>Snapshot\<close>
  returns the content of frame 999999. And with a file \<^verbatim>\<open>old.jpg\<close> beside the frames,
  it returns the content of that file.
\<close>

theorem C7_last_name_is_not_latest_frame:
  "tlRunning started
   \<and> readDir snap_million ''/tmp/timelapse17'' = Some [entry (frame_file 1000000), entry (frame_file 999999)]
   \<and> sorted [frame_file 1000000, frame_file 999999]
   \<and> readFile snap_million (frame_name_spec ''/tmp/timelapse17'' 1000000) = Some ''FRAME 1000000''
   \<and> fst (Snapshot snap_million started) = Ret (Inr ''FRAME 999999'')
   \<and> fst (Snapshot snap_million started) \<noteq> Ret (Inr ''FRAME 1000000'')
   \<and> fst (Snapshot snap_foreign started) = Ret (Inr ''FOREIGN'')"
  by code_simp

text \<open>
  C7, amended: a \<^verbatim>\<open>Snapshot\<close> made while the time-lapse is running changes nothing
  and adds no event to the trace: no attempt on the lock, no capture process. If it
  returns bytes, they are the content of the last entry of the listing of the session
  directory, a \<^verbatim>\<open>.jpg\<close> that is not a directory, whose name is the greatest of the
  listing when the listing is sorted by name, as \<^verbatim>\<open>os.ReadDir\<close> returns it. When the
  directory holds nothing but frames of the capture, named by \<^verbatim>\<open>image%06d.jpg\<close> with
  sequence numbers below a million, that entry is the frame with the highest sequence
  number, the one written last.
\<close>

theorem C7_snapshot_reads_last_name:
  assumes "tlRunning w"
  shows "snd (Snapshot e w) = w \<and> trace (snd (Snapshot e w)) = trace w \<and>
    (fst (Snapshot e w) = Ret (Inr shot) \<longrightarrow>
      (\<exists>ses files. timelapse w = Some ses \<and> readDir e (currentDir ses) = Some files \<and>
         files \<noteq> [] \<and> \<not> entryIsDir (last files) \<and> HasSuffix (entryName (last files)) ''.jpg'' \<and>
         (sorted (map entryName files) \<longrightarrow> (\<forall>f \<in> set files. entryName f \<le> entryName (last files))) \<and>
         readFile e (Join (currentDir ses) (entryName (last files))) = Some shot \<and>
         (\<forall>ns. sorted (map entryName files) \<and> map entryName files = map frame_file ns \<and>
               (\<forall>n \<in> set ns. 0 \<le> n \<and> n < 1000000) \<longrightarrow>
               readFile e (frame_name_spec (currentDir ses) (Max (set ns))) = Some shot)))"
proof -
  have a: "snd (Snapshot e w) = w" using assms by (rule Snapshot_running)
  have b: "\<exists>ses files. timelapse w = Some ses \<and> readDir e (currentDir ses) = Some files \<and>
         files \<noteq> [] \<and> \<not> entryIsDir (last files) \<and> HasSuffix (entryName (last files)) ''.jpg'' \<and>
         (sorted (map entryName files) \<longrightarrow> (\<forall>f \<in> set files. entryName f \<le> entryName (last files))) \<and>
         readFile e (Join (currentDir ses) (entryName (last files))) = Some shot \<and>
         (\<forall>ns. sorted (map entryName files) \<and> map entryName files = map frame_file ns \<and>
               (\<forall>n \<in> set ns. 0 \<le> n \<and> n < 1000000) \<longrightarrow>
               readFile e (frame_name_spec (currentDir ses) (Max (set ns))) = Some shot)"
    if r: "fst (Snapshot e w) = Ret (Inr shot)"
  proof -
    obtain ses where ses: "timelapse w = Some ses"
      using r assms
      by (cases "timelapse w") (auto simp: Snapshot_def isTimelapseRunning_def LastTLShot_def)
    obtain files where files: "readDir e (currentDir ses) = Some files"
      using r assms ses
      by (cases "readDir e (currentDir ses)")
        (auto simp: Snapshot_def isTimelapseRunning_def LastTLShot_def lastTLShotInternal_cases)
    have ne: "files \<noteq> []" and jpg: "\<not> entryIsDir (last files) \<and> HasSuffix (entryName (last files)) ''.jpg''"
      using r assms ses files
      by (auto simp: Snapshot_def isTimelapseRunning_def LastTLShot_def lastTLShotInternal_cases
          split: if_splits)
    have rd: "readFile e (Join (currentDir ses) (entryName (last files))) = Some shot"
      using r assms ses files ne jpg
      by (auto simp: Snapshot_def isTimelapseRunning_def LastTLShot_def lastTLShotInternal_cases
          split: option.splits)
    have so: "\<forall>f \<in> set files. entryName f \<le> entryName (last files)" if s: "sorted (map entryName files)"
    proof
      fix f assume "f \<in> set files"
      then have "entryName f \<in> set (map entryName files)" by simp
      from sorted_le_last [OF s this] show "entryName f \<le> entryName (last files)"
        using ne by (simp add: last_map)
    qed
    have fr: "readFile e (frame_name_spec (currentDir ses) (Max (set ns))) = Some shot"
      if "sorted (map entryName files) \<and> map entryName files = map frame_file ns \<and>
               (\<forall>n \<in> set ns. 0 \<le> n \<and> n < 1000000)" for ns
    proof -
      have "entryName (last files) = frame_file (Max (set ns))"
        using that ne by (intro last_frame_is_latest) auto
      then show ?thesis using rd by (simp add: frame_name_spec_Join)
    qed
    show ?thesis using ses files ne jpg rd so fr by blast
  qed
  show ?thesis using a b by simp
qed

theorem C7_snapshot_reads_last_name_witness:
  "tlRunning started \<and> fst (Snapshot snap_three started) = Ret (Inr ''FRAME 2'')
   \<and> readDir snap_three ''/tmp/timelapse17'' = Some frames3
   \<and> sorted (map entryName frames3) \<and> map entryName frames3 = map frame_file [0, 1, 2]
   \<and> snd (Snapshot snap_three started) = started
   \<and> readFile snap_three (frame_name_spec ''/tmp/timelapse17'' (Max (set [0, 1, 2]))) = Some ''FRAME 2''"
proof -
  have h: "tlRunning started" by code_simp
  have r: "fst (Snapshot snap_three started) = Ret (Inr ''FRAME 2'')" by code_simp
  have d: "readDir snap_three ''/tmp/timelapse17'' = Some frames3" by code_simp
  have s: "sorted (map entryName frames3)" by code_simp
  have m: "map entryName frames3 = map frame_file [0, 1, 2]" by code_simp
  have c: "timelapse started = Some \<lparr>currentDir = ''/tmp/timelapse17'', startTime = 1700000000000000000,
             jobID = 17, jobName = ''bracket.gcode'', timelapseCommand = Running\<rparr>"
    by (simp add: started_eq)
  from C7_snapshot_reads_last_name [OF h, of snap_three "''FRAME 2''"] r
  obtain ses files where k: "timelapse started = Some ses"
      "readDir snap_three (currentDir ses) = Some files"
      "\<forall>ns. sorted (map entryName files) \<and> map entryName files = map frame_file ns \<and>
               (\<forall>n \<in> set ns. 0 \<le> n \<and> n < 1000000) \<longrightarrow>
               readFile snap_three (frame_name_spec (currentDir ses) (Max (set ns))) = Some ''FRAME 2''"
      "snd (Snapshot snap_three started) = started"
    by blast
  have cd: "currentDir ses = ''/tmp/timelapse17''" using k(1) c by auto
  then have f: "files = frames3" using k(2) d by simp
  have "readFile snap_three (frame_name_spec ''/tmp/timelapse17'' (Max (set [0, 1, 2]))) = Some ''FRAME 2''"
    using k(3) s m unfolding f cd by (elim allE [of _ "[0, 1, 2]"]) simp
  then show ?thesis using h r d s m k(4) by simp
qed

section \<open>The final frame and the video\<close>

text \<open>
  C8 (the copies of the final frame are named by \<^verbatim>\<open>image%06d.jpg\<close> and follow the
  frames). With the last frame numbered 41 and a count of 4, the names for the still
  and its copies are padded with spaces, and the first copy is of the still onto
  itself. Were every \<^verbatim>\<open>cp\<close> to succeed, the copies would be the five files listed;
  the frame 42 of the capture would be \<^verbatim>\<open>image000042.jpg\<close>, and the copy for 42 sorts
  before the first frame of the capture. With a \<^verbatim>\<open>cp\<close> that refuses to copy a file
  onto itself, the still is written under its padded name, the first copy fails, and
  \<^verbatim>\<open>takeLastShot\<close> returns that error with no copy made.
\<close>

theorem C8_copies_padded_with_spaces:
  "snd (cpLoop (tick_stop\<lparr>cpOK := \<lambda>src dst. True\<rparr>) (shotFilename ''/tmp/timelapse17'' 41)
         ''/tmp/timelapse17'' 41 (41 + 4 + 1)) =
     [Cp ''/tmp/timelapse17/image    41.jpg'' ''/tmp/timelapse17/image    41.jpg'' True,
      Cp ''/tmp/timelapse17/image    41.jpg'' ''/tmp/timelapse17/image    42.jpg'' True,
      Cp ''/tmp/timelapse17/image    41.jpg'' ''/tmp/timelapse17/image    43.jpg'' True,
      Cp ''/tmp/timelapse17/image    41.jpg'' ''/tmp/timelapse17/image    44.jpg'' True,
      Cp ''/tmp/timelapse17/image    41.jpg'' ''/tmp/timelapse17/image    45.jpg'' True]
   \<and> frame_name_spec ''/tmp/timelapse17'' 42 = ''/tmp/timelapse17/image000042.jpg''
   \<and> shotFilename ''/tmp/timelapse17'' 42 < frame_name_spec ''/tmp/timelapse17'' 0
   \<and> fst (takeLastShot tick_stop ''/tmp/timelapse17'' 41 4 (newTimelapse ''/tmp/cam'')) = Some (Some ErrCp)
   \<and> trace (snd (takeLastShot tick_stop ''/tmp/timelapse17'' 41 4 (newTimelapse ''/tmp/cam''))) =
       [MutexLock, StillRun ''/tmp/timelapse17/image    41.jpg'' True,
        Cp ''/tmp/timelapse17/image    41.jpg'' ''/tmp/timelapse17/image    41.jpg'' False,
        MutexUnlock]"
  by code_simp

text \<open>
  C9: for a positive frame count (a Go \<^verbatim>\<open>int\<close>, so below \<open>2 ^ 63\<close>) and a positive
  video length, the frame rate is the greater of the floor of their quotient and the
  minimum rate; 240 frames, 7 seconds and a minimum of 12 give 34.
\<close>

theorem C9_frame_rate:
  assumes "0 < count" "count < 2 ^ 63" "0 < VideoLenght config"
  shows "buildVideo_fps config count =
     Ret (max \<lfloor>real_of_int count / real_of_int (VideoLenght config)\<rfloor> (MinFPS config))
   \<and> buildVideo_fps (config\<lparr>VideoLenght := 7, MinFPS := 12\<rparr>) 240 = Ret 34"
proof -
  have q: "count sdiv VideoLenght config = count div VideoLenght config"
    using assms by (simp add: signed_divide_int_def)
  have lo: "0 \<le> count div VideoLenght config"
    using assms by (simp add: pos_imp_zdiv_nonneg_iff)
  have "count div VideoLenght config \<le> count div 1"
    using assms by (intro zdiv_mono2) simp_all
  then have hi: "count div VideoLenght config < 2 ^ 63" using assms by simp
  have "wrap64 (count div VideoLenght config) = count div VideoLenght config"
    using lo hi unfolding wrap64_def by (simp add: mod_pos_pos_trivial)
  then have 1: "buildVideo_fps config count =
     Ret (max \<lfloor>real_of_int count / real_of_int (VideoLenght config)\<rfloor> (MinFPS config))"
    using q assms by (simp add: buildVideo_fps_def floor_divide_of_int_eq)
  have 2: "buildVideo_fps (config\<lparr>VideoLenght := 7, MinFPS := 12\<rparr>) 240 = Ret 34"
    by (simp add: buildVideo_fps_def wrap64_def signed_divide_int_def)
  show ?thesis using 1 2 by simp
qed

theorem C9_frame_rate_witness:
  "(0::int) < 240 \<and> (240::int) < 2 ^ 63
   \<and> 0 < VideoLenght \<lparr>Enabled = True, Interval = 20, Loglevel = ''info'', VideoLenght = 7,
        OutputDir = ''~/timelapses/'', MinFPS = 12\<rparr>
   \<and> buildVideo_fps \<lparr>Enabled = True, Interval = 20, Loglevel = ''info'', VideoLenght = 7,
        OutputDir = ''~/timelapses/'', MinFPS = 12\<rparr> 240 = Ret 34"
  using C9_frame_rate [of 240 "\<lparr>Enabled = True, Interval = 20, Loglevel = ''info'', VideoLenght = 7,
        OutputDir = ''~/timelapses/'', MinFPS = 12\<rparr>"]
  by simp

end
